theory Spec2Isabelle
  imports Main
begin

section \<open>Computation.fork (src/sources/Computation.ts)\<close>

text \<open>
  \<^verbatim>\<open>fork(sh, env, rej, res)\<close> keeps two mutable locals, \<^verbatim>\<open>status\<close> and
  \<^verbatim>\<open>cancellations\<close>, closes \<^verbatim>\<open>onRej\<close>, \<^verbatim>\<open>onRes\<close>, the task given to \<^verbatim>\<open>sh.asap\<close>
  and the returned cancel function over them. The model passes these locals as an
  explicit state. Two logs are added so that the effects of the closures on their
  surroundings can be read off: \<open>delivered\<close> lists the calls of the caller's \<^verbatim>\<open>rej\<close> and
  \<^verbatim>\<open>res\<close>, \<open>invoked\<close> lists the cancel functions that were called.
\<close>

datatype IOStatus = FORKED | RESOLVED | REJECTED | CANCELLED

text \<open>The functions stored in \<^verbatim>\<open>cancellations\<close>: the handle returned by \<^verbatim>\<open>sh.asap\<close>, and
  the function \<^verbatim>\<open>cmp\<close> may return.\<close>

datatype Cancel = AsapCancel | CmpCancel nat

text \<open>One invocation of a callback: \<^verbatim>\<open>rej(e)\<close> or \<^verbatim>\<open>res(a)\<close>.\<close>

datatype ('e, 'a) call = REJ 'e | RES 'a

text \<open>How the call \<^verbatim>\<open>this.cmp(sh, env, onRej, onRes)\<close> ends: it returns a function,
  it returns anything else, or it throws.\<close>

datatype 'e cmp_end = ReturnsCancel nat | ReturnsVoid | Throws 'e

text \<open>What \<^verbatim>\<open>cmp\<close> does while it runs: the callbacks it invokes synchronously, in order,
  and how it ends.\<close>

type_synonym ('e, 'a) cmp = "('e, 'a) call list \<times> 'e cmp_end"

record ('e, 'a) fork_state =
  status :: IOStatus
  cancellations :: "Cancel list"
  delivered :: "('e, 'a) call list"
  invoked :: "Cancel list"
  scheduled :: bool
  started :: bool

text \<open>The state right after \<^verbatim>\<open>fork\<close> has returned: the task is scheduled, its handle is
  the only entry of \<^verbatim>\<open>cancellations\<close>.\<close>

definition fork :: "('e, 'a) fork_state" where
  "fork = \<lparr> status = FORKED, cancellations = [AsapCancel], delivered = [],
            invoked = [], scheduled = True, started = False \<rparr>"

definition onRej :: "'e \<Rightarrow> ('e, 'a) fork_state \<Rightarrow> ('e, 'a) fork_state" where
  "onRej e s = s\<lparr> status := REJECTED, delivered := delivered s @ [REJ e] \<rparr>"

definition onRes :: "'a \<Rightarrow> ('e, 'a) fork_state \<Rightarrow> ('e, 'a) fork_state" where
  "onRes a s = s\<lparr> status := RESOLVED, delivered := delivered s @ [RES a] \<rparr>"

fun on_call :: "('e, 'a) call \<Rightarrow> ('e, 'a) fork_state \<Rightarrow> ('e, 'a) fork_state" where
  "on_call (REJ e) s = onRej e s"
| "on_call (RES a) s = onRes a s"

text \<open>The task given to \<^verbatim>\<open>sh.asap\<close>. The \<^verbatim>\<open>catch\<close> branch calls the caller's \<^verbatim>\<open>rej\<close>
  itself, not \<^verbatim>\<open>onRej\<close>: the status is left as it is.\<close>

definition asap_task :: "('e, 'a) cmp \<Rightarrow> ('e, 'a) fork_state \<Rightarrow> ('e, 'a) fork_state" where
  "asap_task c s =
     (let s1 = fold on_call (fst c) (s\<lparr> scheduled := False, started := True \<rparr>)
      in case snd c of
           ReturnsCancel n \<Rightarrow> s1\<lparr> cancellations := cancellations s1 @ [CmpCancel n] \<rparr>
         | ReturnsVoid \<Rightarrow> s1
         | Throws e \<Rightarrow> s1\<lparr> delivered := delivered s1 @ [REJ e] \<rparr>)"

text \<open>The function \<^verbatim>\<open>fork\<close> returns. Calling the handle of \<^verbatim>\<open>sh.asap\<close> takes the
  task off the scheduler if it has not run yet.\<close>

definition cancel :: "('e, 'a) fork_state \<Rightarrow> ('e, 'a) fork_state" where
  "cancel s =
     (if status s = FORKED
      then s\<lparr> status := CANCELLED, invoked := invoked s @ cancellations s,
               scheduled := scheduled s \<and> AsapCancel \<notin> set (cancellations s) \<rparr>
      else s)"

text \<open>What can happen after \<^verbatim>\<open>fork\<close>: the scheduler runs the task (if it is still
  scheduled), \<^verbatim>\<open>cmp\<close> invokes a callback it kept (possible once it has run), or the
  caller invokes the returned cancel function.\<close>

datatype ('e, 'a) event = Tick | Invoke "('e, 'a) call" | CancelFork

fun fork_step :: "('e, 'a) cmp \<Rightarrow> ('e, 'a) event \<Rightarrow> ('e, 'a) fork_state \<Rightarrow> ('e, 'a) fork_state" where
  "fork_step c Tick s = (if scheduled s then asap_task c s else s)"
| "fork_step c (Invoke k) s = (if started s then on_call k s else s)"
| "fork_step c CancelFork s = cancel s"

definition fork_run :: "('e, 'a) cmp \<Rightarrow> ('e, 'a) event list \<Rightarrow> ('e, 'a) fork_state" where
  "fork_run c evs = fold (fork_step c) evs fork"

fun status_of :: "('e, 'a) call \<Rightarrow> IOStatus" where
  "status_of (REJ e) = REJECTED"
| "status_of (RES a) = RESOLVED"

text \<open>The call of the caller's \<^verbatim>\<open>rej\<close> made by the \<^verbatim>\<open>catch\<close> branch.\<close>

fun thrown :: "'e cmp_end \<Rightarrow> ('e, 'a) call list" where
  "thrown (Throws e) = [REJ e]"
| "thrown en = []"

section \<open>Queue (Queue.ts)\<close>

text \<open>
  Modelled from the spec: \<^verbatim>\<open>PureMutableList\<close> (\<^verbatim>\<open>../internals/PureMutableList\<close>) is not
  among the sources. The spec says of the queue's two lists "FIFO for both items and
  takers": \<^verbatim>\<open>add\<close> puts an element at the end, \<^verbatim>\<open>shift\<close> removes the first
  element and yields it, or yields \<^verbatim>\<open>undefined\<close> (here \<open>None\<close>) on an empty list.
\<close>

definition pml_add :: "'a \<Rightarrow> 'a list \<Rightarrow> 'a list" where
  "pml_add a xs = xs @ [a]"

fun pml_shift :: "'a list \<Rightarrow> 'a option \<times> 'a list" where
  "pml_shift [] = (None, [])"
| "pml_shift (x # xs) = (Some x, xs)"

text \<open>
  The immutable \<^verbatim>\<open>List\<close> of the library \<^verbatim>\<open>standard-data-structures\<close>, used as an
  accumulator by \<^verbatim>\<open>Queue.takeN\<close>, \<^verbatim>\<open>Queue.setAwaited\<close>, \<^verbatim>\<open>QIO.seq\<close> and \<^verbatim>\<open>QIO.par\<close>:
  \<^verbatim>\<open>prepend\<close> puts an element in front, \<^verbatim>\<open>asArray\<close> lists the elements from the front.
  \<^verbatim>\<open>QIO.par\<close> relies on this order: it prepends the results in the order of its input
  and returns \<^verbatim>\<open>asArray.reverse()\<close>.
\<close>

definition prepend :: "'a \<Rightarrow> 'a list \<Rightarrow> 'a list" where
  "prepend x l = x # l"

definition asArray :: "'a list \<Rightarrow> 'a list" where
  "asArray l = l"

text \<open>
  Modelled from the spec: \<^verbatim>\<open>Await\<close> (\<^verbatim>\<open>./Await\<close>) is not among the sources. The spec:
  "first \<^verbatim>\<open>set\<close> populates cell [...]; subsequent \<^verbatim>\<open>set\<close>s are no-ops returning false",
  and \<^verbatim>\<open>get\<close> suspends the caller until the cell is populated. The queue only ever sets
  an \<^verbatim>\<open>Await\<close> to a constant effect \<^verbatim>\<open>FIO.of(value)\<close>, so a cell holds the value itself.
  The \<^verbatim>\<open>Await\<close> objects live in a heap, a list of cells; a reference is an index.
\<close>

definition await_set :: "nat \<Rightarrow> 'a \<Rightarrow> 'a option list \<Rightarrow> bool \<times> 'a option list" where
  "await_set r v aw =
     (if r < length aw \<and> aw ! r = None then (True, aw[r := Some v]) else (False, aw))"

text \<open>
  A value of the item type \<^verbatim>\<open>A\<close> of a \<^verbatim>\<open>Queue<A>\<close>. Nothing in \<^verbatim>\<open>Queue\<close> keeps
  \<^verbatim>\<open>undefined\<close> out of \<^verbatim>\<open>A\<close>, and \<^verbatim>\<open>take\<close> compares the shifted item with it.
\<close>

datatype 'a js = Undefined | Defined 'a

text \<open>What \<^verbatim>\<open>Q.shift\<close> evaluates to: \<^verbatim>\<open>undefined\<close> on an empty list, otherwise the
  removed item, which may itself be \<^verbatim>\<open>undefined\<close>.\<close>

fun shift_value :: "'a js option \<Rightarrow> 'a js" where
  "shift_value None = Undefined"
| "shift_value (Some v) = v"

text \<open>The fields of \<^verbatim>\<open>Queue\<close>: \<^verbatim>\<open>capacity\<close>, the items \<^verbatim>\<open>Q\<close>, the takers \<^verbatim>\<open>T\<close>
  (references to \<^verbatim>\<open>Await\<close>s); and the heap of the \<^verbatim>\<open>Await\<close>s made by \<^verbatim>\<open>take\<close>.\<close>

record 'a queue_state =
  capacity :: int
  Q :: "'a list"
  T :: "nat list"
  awaits :: "'a option list"

definition bounded :: "int \<Rightarrow> 'a queue_state" where
  "bounded cap = \<lparr> capacity = cap, Q = [], T = [], awaits = [] \<rparr>"

text \<open>
  \<^verbatim>\<open>take\<close>: \<^verbatim>\<open>Q.shift.chain(sz => sz !== undefined ? FIO.of(sz) : ...)\<close>. The shift
  removes the first item, if there is one. If its value is not \<^verbatim>\<open>undefined\<close> the take
  succeeds with it; otherwise (the list was empty, or the removed item was
  \<^verbatim>\<open>undefined\<close>) a new \<^verbatim>\<open>Await\<close> is made, added to \<^verbatim>\<open>T\<close>, and the caller suspends on
  its \<^verbatim>\<open>get\<close>. No step of \<^verbatim>\<open>take\<close> or \<^verbatim>\<open>offer\<close> before that suspension yields to the
  scheduler, so each is one transition of the state.
\<close>

datatype 'a taken = Value 'a | Waits nat

definition take_queue :: "'a js queue_state \<Rightarrow> 'a js taken \<times> 'a js queue_state" where
  "take_queue s =
     (case pml_shift (Q s) of
        (shifted, q) \<Rightarrow>
          (case shift_value shifted of
             Defined sz \<Rightarrow> (Value (Defined sz), s\<lparr> Q := q \<rparr>)
           | Undefined \<Rightarrow>
               (let r = length (awaits s)
                in (Waits r, s\<lparr> Q := q, awaits := awaits s @ [None], T := pml_add r (T s) \<rparr>))))"

text \<open>
  \<^verbatim>\<open>setAwaited\<close>: its \<^verbatim>\<open>itar\<close> shifts takers off \<^verbatim>\<open>T\<close> until \<^verbatim>\<open>T.shift\<close> yields
  \<^verbatim>\<open>undefined\<close>, prepending \<^verbatim>\<open>_.set(FIO.of(value))\<close> for each to \<open>list\<close> (kept here as
  the taker's reference). Then \<^verbatim>\<open>FIO.seq(_.asArray)\<close> runs these \<^verbatim>\<open>set\<close>s in the order of
  the array, and if the list was not empty \<^verbatim>\<open>Q.shift\<close> removes the first item.
\<close>

function setAwaited_itar :: "nat list \<Rightarrow> nat list \<Rightarrow> nat list \<times> nat list" where
  "setAwaited_itar list t =
     (case pml_shift t of
        (None, t') \<Rightarrow> (list, t')
      | (Some r, t') \<Rightarrow> setAwaited_itar (prepend r list) t')"
  by pat_completeness auto
termination
  apply (relation "measure (\<lambda>(list, t). length t)")
   apply simp
  apply (case_tac t)
   apply simp_all
  done

declare setAwaited_itar.simps [simp del]

definition setAwaited :: "'a \<Rightarrow> 'a queue_state \<Rightarrow> 'a queue_state" where
  "setAwaited v s =
     (case setAwaited_itar [] (T s) of
        (list, t') \<Rightarrow>
          (let s1 = s\<lparr> T := t' \<rparr>;
               s2 = s1\<lparr> awaits := fold (\<lambda>r aw. snd (await_set r v aw)) (asArray list) (awaits s1) \<rparr>
           in if list \<noteq> [] then s2\<lparr> Q := snd (pml_shift (Q s2)) \<rparr> else s2))"

text \<open>\<^verbatim>\<open>offer(a)\<close> is \<^verbatim>\<open>Q.add(a)\<close> followed by \<^verbatim>\<open>setAwaited\<close> of the added node's value.
  The capacity is not read.\<close>

definition offer :: "'a \<Rightarrow> 'a queue_state \<Rightarrow> 'a queue_state" where
  "offer a s = setAwaited a (s\<lparr> Q := pml_add a (Q s) \<rparr>)"

text \<open>
  An interleaving of offers and takes on one queue, run from \<^verbatim>\<open>Queue.bounded(cap)\<close>. The
  second component lists what each take got, in the order the takes were made.
\<close>

datatype 'a op = Offer 'a | Take

fun queue_step :: "'a js op \<Rightarrow> 'a js queue_state \<times> 'a js taken list
                   \<Rightarrow> 'a js queue_state \<times> 'a js taken list" where
  "queue_step (Offer a) (s, ts) = (offer a s, ts)"
| "queue_step Take (s, ts) = (case take_queue s of (r, s') \<Rightarrow> (s', ts @ [r]))"

definition queue_run :: "int \<Rightarrow> 'a js op list \<Rightarrow> 'a js queue_state \<times> 'a js taken list" where
  "queue_run cap ops = fold queue_step ops (bounded cap, [])"

text \<open>The value a take has returned in state \<open>s\<close>: its item, or the value its \<^verbatim>\<open>Await\<close>
  was set to (\<open>None\<close> while it is still suspended).\<close>

fun returned :: "'a queue_state \<Rightarrow> 'a taken \<Rightarrow> 'a option" where
  "returned s (Value a) = Some a"
| "returned s (Waits r) = (if r < length (awaits s) then awaits s ! r else None)"

fun offered :: "'a op list \<Rightarrow> 'a list" where
  "offered [] = []"
| "offered (Offer a # ops) = a # offered ops"
| "offered (Take # ops) = offered ops"

text \<open>\<open>calm n m ops\<close>: after \<open>n\<close> takes and \<open>m\<close> offers, no offer of \<open>ops\<close> is made while
  more than one take is waiting.\<close>

fun calm :: "nat \<Rightarrow> nat \<Rightarrow> 'a op list \<Rightarrow> bool" where
  "calm n m [] = True"
| "calm n m (Offer a # ops) = (n \<le> Suc m \<and> calm n (Suc m) ops)"
| "calm n m (Take # ops) = calm (Suc n) m ops"

text \<open>
  \<^verbatim>\<open>takeN(n)\<close>: \<^verbatim>\<open>itar(i, list)\<close> is \<^verbatim>\<open>FIO.of(list)\<close> when \<^verbatim>\<open>i === n\<close>, and otherwise
  \<^verbatim>\<open>this.take.chain(_ => itar(i + 1, list.prepend(_)))\<close>; the result is mapped with
  \<^verbatim>\<open>asArray\<close>. A take that finds no item, or the item \<^verbatim>\<open>undefined\<close>, suspends the
  caller: the model returns the suspended loop (the \<^verbatim>\<open>Await\<close> it waits for, \<open>i\<close> and \<open>list\<close>), and \<open>takeN_resume\<close>
  continues it once that \<^verbatim>\<open>Await\<close> has been set.
\<close>

datatype 'a takeN_result = Resolves "'a list" | Suspends nat int "'a list"

function takeN_itar :: "int \<Rightarrow> int \<Rightarrow> 'a js list \<Rightarrow> 'a js queue_state
                        \<Rightarrow> 'a js takeN_result \<times> 'a js queue_state" where
  "takeN_itar n i list s =
     (if i = n then (Resolves list, s)
      else (case take_queue s of
              (Value x, s') \<Rightarrow> takeN_itar n (i + 1) (prepend x list) s'
            | (Waits r, s') \<Rightarrow> (Suspends r i list, s')))"
  by pat_completeness auto
termination
  apply (relation "measure (\<lambda>(n, i, list, s). length (Q s))")
   apply simp
  apply (case_tac "Q s")
   apply (simp add: take_queue_def Let_def)
  apply (case_tac a)
   apply (simp_all add: take_queue_def Let_def)
  done

declare takeN_itar.simps [simp del]

fun takeN_map :: "'a takeN_result \<times> 'a queue_state \<Rightarrow> 'a takeN_result \<times> 'a queue_state" where
  "takeN_map (Resolves list, s) = (Resolves (asArray list), s)"
| "takeN_map (Suspends r i list, s) = (Suspends r i list, s)"

definition takeN :: "int \<Rightarrow> 'a js queue_state \<Rightarrow> 'a js takeN_result \<times> 'a js queue_state" where
  "takeN n s = takeN_map (takeN_itar n 0 [] s)"

definition takeN_resume :: "int \<Rightarrow> 'a js takeN_result \<times> 'a js queue_state
                             \<Rightarrow> 'a js takeN_result \<times> 'a js queue_state" where
  "takeN_resume n p =
     (case p of
        (Suspends r i list, s) \<Rightarrow>
          (case returned s (Waits r) of
             Some v \<Rightarrow> takeN_map (takeN_itar n (i + 1) (prepend v list) s)
           | None \<Rightarrow> p)
      | (Resolves l, s) \<Rightarrow> p)"

text \<open>Invariants of the queue used in the proofs below; they hold as long as no offered
  value is \<^verbatim>\<open>undefined\<close>.\<close>

definition never_both :: "'a js queue_state \<Rightarrow> bool" where
  "never_both s = ((Q s = [] \<or> T s = []) \<and> Undefined \<notin> set (Q s))"


section \<open>QIO.parN (QIO.ts)\<close>

text \<open>\<^verbatim>\<open>Array.prototype.slice(start, end)\<close> for integer arguments: a negative index
  counts from the end, both are clamped to the array.\<close>

definition slice :: "int \<Rightarrow> int \<Rightarrow> 'a list \<Rightarrow> 'a list" where
  "slice start fin xs =
     (let len = int (length xs);
          k = (if start < 0 then max (len + start) 0 else min start len);
          final = (if fin < 0 then max (len + fin) 0 else min fin len)
      in take (nat (final - k)) (drop (nat k) xs))"

text \<open>
  \<^verbatim>\<open>parN(N, ios)\<close> is \<^verbatim>\<open>itar(ios)\<close>, where \<^verbatim>\<open>itar(list)\<close> is \<^verbatim>\<open>QIO.of([])\<close> for an empty
  list and otherwise \<^verbatim>\<open>QIO.par(list.slice(0, N))\<close> chained with
  \<^verbatim>\<open>l1 => itar(list.slice(N, list.length)).map(l2 => l1.concat(l2))\<close>. The recursion need
  not end, so \<open>parN_itar\<close> is a partial function: \<open>None\<close> is an evaluation that never
  resolves with a value. What \<^verbatim>\<open>QIO.par\<close> makes of one chunk is the parameter \<open>par\<close>
  (\<open>None\<close>: the chunk does not resolve with a value).
\<close>

partial_function (option) parN_itar ::
  "('io list \<Rightarrow> 'v list option) \<Rightarrow> int \<Rightarrow> 'io list \<Rightarrow> 'v list option" where
  "parN_itar par N list =
     (if length list = 0 then Some []
      else Option.bind (par (slice 0 N list))
             (\<lambda>l1. Option.bind (parN_itar par N (slice N (int (length list)) list))
                (\<lambda>l2. Some (l1 @ l2))))"

definition parN :: "('io list \<Rightarrow> 'v list option) \<Rightarrow> int \<Rightarrow> 'io list \<Rightarrow> 'v list option" where
  "parN par N ios = parN_itar par N ios"

section \<open>The effect type and its interpreter (QIO.ts)\<close>

text \<open>
  A \<^verbatim>\<open>QIO\<close> is a tag with up to two fields (\<^verbatim>\<open>new QIO(tag, i0, i1)\<close>); the static
  functions of \<^verbatim>\<open>QIO.ts\<close> build such values and nothing else. The fields are untyped
  at run time, so the model has one type of values. \<open>VList\<close> is the immutable \<^verbatim>\<open>List\<close>
  of \<^verbatim>\<open>standard-data-structures\<close>, \<open>VArr\<close> an array, \<open>VNone\<close> and \<open>VSome\<close> its \<^verbatim>\<open>Option\<close>,
  \<open>VLeft\<close> and \<open>VRight\<close> its \<^verbatim>\<open>Either\<close>, \<open>VRef\<close> a reference to an object of the runtime
  (a fiber, an \<^verbatim>\<open>Await\<close>, a runtime, a callback).
\<close>

datatype val =
    VUndefined
  | VBool bool
  | VNum int
  | VStr string
  | VList "val list"
  | VArr "val list"
  | VNone
  | VSome val
  | VLeft val
  | VRight val
  | VRef nat

text \<open>The exit of an evaluation, \<^verbatim>\<open>Either<E, A>\<close>; also what a host function does when it
  is called: it throws (\<open>Failure\<close>) or returns (\<open>Success\<close>).\<close>

datatype exit = Failure val | Success val

text \<open>
  The instructions, one constructor for each tag that \<^verbatim>\<open>QIO.ts\<close> uses. \<open>'w\<close> is the state
  that the thunks of \<^verbatim>\<open>Try\<close> and \<^verbatim>\<open>TryM\<close> read and change. The callback of \<^verbatim>\<open>Async\<close> is
  code of the host: \<open>Delay duration value\<close> is the callback
  \<^verbatim>\<open>res => RTM.scheduler.delay(res, duration, value)\<close> of \<^verbatim>\<open>QIO.timeout\<close>, any other one is
  kept as a reference.

  Modelled from the spec: \<^verbatim>\<open>Await\<close> (\<^verbatim>\<open>./Await\<close>) and the fiber handle
  (\<^verbatim>\<open>../internals/Fiber\<close>) are not among the sources. Their operations \<^verbatim>\<open>Await.of()\<close>,
  \<^verbatim>\<open>set\<close>, \<^verbatim>\<open>get\<close> (spec 4.4) and \<^verbatim>\<open>abort\<close>, \<^verbatim>\<open>await\<close> (spec 4.3) return effects; the
  model has one instruction for each.
\<close>

datatype register = Delay nat val | HostRegister val

datatype 'w instr =
    Access "val \<Rightarrow> exit"
  | Async register
  | Call "val list \<Rightarrow> 'w instr" "val list"
  | Catch "'w instr" "val \<Rightarrow> 'w instr"
  | Chain "'w instr" "val \<Rightarrow> 'w instr"
  | Constant val
  | Fork "'w instr" val
  | Map "'w instr" "val \<Rightarrow> exit"
  | Never
  | Provide "'w instr" val
  | Reject val
  | Runtime
  | Try "'w \<Rightarrow> exit \<times> 'w"
  | TryM "'w \<Rightarrow> 'w instr \<times> 'w"
  | AwaitOf
  | AwaitSet val "'w instr"
  | AwaitGet val
  | FiberAbort val
  | FiberAwait val

text \<open>The functions of \<^verbatim>\<open>QIO.ts\<close> used below. \<^verbatim>\<open>Id\<close> is the identity of
  \<^verbatim>\<open>@qio/prelude\<close>.\<close>

definition Id :: "val \<Rightarrow> exit" where
  "Id a = Success a"

definition QIO_access :: "(val \<Rightarrow> exit) \<Rightarrow> 'w instr" where
  "QIO_access cb = Access cb"

definition QIO_chain :: "'w instr \<Rightarrow> (val \<Rightarrow> 'w instr) \<Rightarrow> 'w instr" where
  "QIO_chain fa aFb = Chain fa aFb"

definition QIO_map :: "'w instr \<Rightarrow> (val \<Rightarrow> exit) \<Rightarrow> 'w instr" where
  "QIO_map fa ab = Map fa ab"

definition QIO_of :: "val \<Rightarrow> 'w instr" where
  "QIO_of v = Constant v"

definition QIO_resume :: "('w \<Rightarrow> exit \<times> 'w) \<Rightarrow> 'w instr" where
  "QIO_resume cb = Try cb"

definition QIO_lift :: "('w \<Rightarrow> exit \<times> 'w) \<Rightarrow> 'w instr" where
  "QIO_lift cb = QIO_resume cb"

definition QIO_env :: "'w instr" where
  "QIO_env = QIO_access Id"

definition QIO_and :: "'w instr \<Rightarrow> 'w instr \<Rightarrow> 'w instr" where
  "QIO_and this aFb = QIO_chain this (\<lambda>_. aFb)"

definition QIO_addEnv :: "'w instr \<Rightarrow> 'w instr" where
  "QIO_addEnv this = QIO_and QIO_env this"

text \<open>\<^verbatim>\<open>List.empty\<close>, \<^verbatim>\<open>list.prepend(value)\<close> and \<^verbatim>\<open>list.asArray\<close> on values; on a value
  that is not a \<^verbatim>\<open>List\<close> the call throws.\<close>

definition TypeError :: val where
  "TypeError = VStr ''TypeError''"

definition List_empty :: val where
  "List_empty = VList []"

fun List_prepend :: "val \<Rightarrow> val \<Rightarrow> exit" where
  "List_prepend v (VList l) = Success (VList (prepend v l))"
| "List_prepend v other = Failure TypeError"

fun List_asArray :: "val \<Rightarrow> exit" where
  "List_asArray (VList l) = Success (VArr (asArray l))"
| "List_asArray other = Failure TypeError"






















text \<open>
  \<^verbatim>\<open>QIO.seq(ios)\<close>: \<^verbatim>\<open>ios.reduce\<close> with the function
  \<^verbatim>\<open>(fList, f) => fList.chain(list => f.map(value => list.prepend(value)))\<close> from
  \<^verbatim>\<open>QIO.lift(() => List.empty()).addEnv()\<close>, then \<^verbatim>\<open>.map(_ => _.asArray)\<close>. (\<^verbatim>\<open>QIO.par\<close>
  folds with \<^verbatim>\<open>zipWithPar\<close> and the same \<^verbatim>\<open>prepend\<close>, then maps with
  \<^verbatim>\<open>_ => _.asArray.reverse()\<close>.)
\<close>

definition seq_reduce :: "'w instr list \<Rightarrow> 'w instr" where
  "seq_reduce ios =
     foldl (\<lambda>fList f. QIO_chain fList (\<lambda>list. QIO_map f (\<lambda>v. List_prepend v list)))
       (QIO_addEnv (QIO_lift (\<lambda>w. (Success List_empty, w))))
       ios"

definition QIO_seq :: "'w instr list \<Rightarrow> 'w instr" where
  "QIO_seq ios = QIO_map (seq_reduce ios) List_asArray"

text \<open>
  Modelled from the spec: the interpreter of the instructions (the fiber evaluator,
  \<^verbatim>\<open>../internals/Fiber\<close>) is not among the sources. The spec (4.2, 4.3): a fiber holds the
  current instruction, a stack of continuation frames \<^verbatim>\<open>Apply(a -> Eff)\<close>,
  \<^verbatim>\<open>Recover(e -> Eff)\<close>, \<^verbatim>\<open>WithEnv(prev R)\<close>, and the environment. The loop inspects the
  tag of the current instruction and reduces the pure constructors without yielding,
  pushing and popping frames; on success with an empty stack the fiber completes with
  \<^verbatim>\<open>Right(a)\<close>; a failure unwinds the frames up to a \<^verbatim>\<open>Recover\<close> frame, restoring the
  environments of the \<^verbatim>\<open>WithEnv\<close> frames on the way, and completes with \<^verbatim>\<open>Left(e)\<close> when
  no frame is left; \<^verbatim>\<open>Async\<close>, \<^verbatim>\<open>Fork\<close>, \<^verbatim>\<open>Never\<close> and the operations of \<^verbatim>\<open>Await\<close> and
  of fibers need the runtime.
\<close>

datatype 'w frame = Apply "val \<Rightarrow> 'w instr" | Recover "val \<Rightarrow> 'w instr" | WithEnv val

datatype 'w request =
    ReqAsync register
  | ReqFork "'w instr" val
  | ReqNever
  | ReqAwaitOf
  | ReqAwaitSet val "'w instr"
  | ReqAwaitGet val
  | ReqFiberAbort val
  | ReqFiberAwait val

datatype 'w reduct =
    Terminal exit
  | Next "'w instr" "'w frame list" val 'w
  | Ask "'w request" 'w

fun terminal :: "exit \<Rightarrow> 'w instr" where
  "terminal (Success a) = Constant a"
| "terminal (Failure e) = Reject e"

text \<open>One dispatch on the tag: \<open>rt\<close> is the fiber's runtime, \<open>env\<close> its environment.
  \<open>Next m frames env' w'\<close> goes on with \<open>m\<close> after pushing \<open>frames\<close>.\<close>

fun reduce :: "val \<Rightarrow> 'w instr \<Rightarrow> val \<Rightarrow> 'w \<Rightarrow> 'w reduct" where
  "reduce rt (Constant a) env w = Terminal (Success a)"
| "reduce rt (Reject e) env w = Terminal (Failure e)"
| "reduce rt (Try thunk) env w = (case thunk w of (x, w') \<Rightarrow> Next (terminal x) [] env w')"
| "reduce rt (TryM thunk) env w = (case thunk w of (m, w') \<Rightarrow> Next m [] env w')"
| "reduce rt (Map m f) env w = Next m [Apply (\<lambda>a. terminal (f a))] env w"
| "reduce rt (Chain m k) env w = Next m [Apply k] env w"
| "reduce rt (Catch m h) env w = Next m [Recover h] env w"
| "reduce rt (Access f) env w = Next (terminal (f env)) [] env w"
| "reduce rt (Provide m r) env w = Next m [WithEnv env] r w"
| "reduce rt Runtime env w = Next (Constant rt) [] env w"
| "reduce rt (Call f args) env w = Next (f args) [] env w"
| "reduce rt (Async register) env w = Ask (ReqAsync register) w"
| "reduce rt (Fork m r) env w = Ask (ReqFork m r) w"
| "reduce rt Never env w = Ask ReqNever w"
| "reduce rt AwaitOf env w = Ask ReqAwaitOf w"
| "reduce rt (AwaitSet a m) env w = Ask (ReqAwaitSet a m) w"
| "reduce rt (AwaitGet a) env w = Ask (ReqAwaitGet a) w"
| "reduce rt (FiberAbort f) env w = Ask (ReqFiberAbort f) w"
| "reduce rt (FiberAwait f) env w = Ask (ReqFiberAwait f) w"

datatype 'w step_result =
    Continue "'w instr" "'w frame list" val 'w
  | Complete exit 'w
  | Suspend "'w request" "'w frame list" val 'w

text \<open>A success or a failure meets the top frame of the stack.\<close>

fun unwind :: "exit \<Rightarrow> 'w frame list \<Rightarrow> val \<Rightarrow> 'w \<Rightarrow> 'w step_result" where
  "unwind x [] env w = Complete x w"
| "unwind (Success a) (Apply k # stk) env w = Continue (k a) stk env w"
| "unwind (Failure e) (Apply k # stk) env w = Continue (Reject e) stk env w"
| "unwind (Success a) (Recover h # stk) env w = Continue (Constant a) stk env w"
| "unwind (Failure e) (Recover h # stk) env w = Continue (h e) stk env w"
| "unwind x (WithEnv r # stk) env w = Continue (terminal x) stk r w"

definition step :: "val \<Rightarrow> 'w instr \<Rightarrow> 'w frame list \<Rightarrow> val \<Rightarrow> 'w \<Rightarrow> 'w step_result" where
  "step rt cur stk env w =
     (case reduce rt cur env w of
        Terminal x \<Rightarrow> unwind x stk env w
      | Next cur' frames env' w' \<Rightarrow> Continue cur' (frames @ stk) env' w'
      | Ask rq w' \<Rightarrow> Suspend rq stk env w')"

text \<open>
  The evaluation of one fiber to its end. What the runtime and the other fibers do is
  the parameter \<open>orc\<close>: asked with the number of requests made so far, the request and the
  state, it says with which exit and in which state the fiber is resumed (for
  \<^verbatim>\<open>Async\<close> the first call of \<^verbatim>\<open>rej\<close> or \<^verbatim>\<open>res\<close>, for \<^verbatim>\<open>Fork\<close> the new fiber), or that it
  never is (\<open>None\<close>). What can be observed of the evaluation is how it ends, the final
  state and the requests made. \<open>run n\<close> makes at most \<open>n\<close> steps; \<open>None\<close> says that \<open>n\<close>
  steps were not enough.
\<close>

datatype ending = Exited exit | Hangs

type_synonym 'w host = "nat \<Rightarrow> 'w request \<Rightarrow> 'w \<Rightarrow> (exit \<times> 'w) option"

record 'w outcome =
  ending :: ending
  world :: 'w
  requests :: "'w request list"

fun run :: "nat \<Rightarrow> 'w host \<Rightarrow> val \<Rightarrow> 'w request list \<Rightarrow> 'w instr \<Rightarrow> 'w frame list \<Rightarrow> val \<Rightarrow> 'w
            \<Rightarrow> 'w outcome option" where
  "run 0 orc rt rqs cur stk env w = None"
| "run (Suc n) orc rt rqs cur stk env w =
     (case step rt cur stk env w of
        Continue cur' stk' env' w' \<Rightarrow> run n orc rt rqs cur' stk' env' w'
      | Complete x w' \<Rightarrow> Some \<lparr> ending = Exited x, world = w', requests = rqs \<rparr>
      | Suspend rq stk' env' w' \<Rightarrow>
          (case orc (length rqs) rq w' of
             None \<Rightarrow> Some \<lparr> ending = Hangs, world = w', requests = rqs @ [rq] \<rparr>
           | Some (x, w'') \<Rightarrow> run n orc rt (rqs @ [rq]) (terminal x) stk' env' w''))"

text \<open>
  Two effects are equivalent when, in every context (runtime, host, continuation stack,
  environment, state), both evaluations end, and end with the same observable outcome.
\<close>

definition equivalent :: "'w instr \<Rightarrow> 'w instr \<Rightarrow> bool" where
  "equivalent m m' =
     (\<forall>orc rt rqs stk env w.
        \<exists>n n' r. run n orc rt rqs m stk env w = Some r \<and> run n' orc rt rqs m' stk env w = Some r)"

section \<open>The runtime: fibers, Await and the test scheduler\<close>

























text \<open>Relations used in the proofs below: stacks that differ by frames the monad laws
  identify, and evaluations that end.\<close>

inductive srel :: "'w frame list \<Rightarrow> 'w frame list \<Rightarrow> bool" where
  srel_refl: "srel s s"
| srel_cons: "srel s s' \<Longrightarrow> srel (fr # s) (fr # s')"
| srel_unit: "srel s s' \<Longrightarrow> srel (Apply Constant # s) s'"
| srel_assoc: "srel s s' \<Longrightarrow> srel (Apply f # Apply g # s) (Apply (\<lambda>x. Chain (f x) g) # s')"

definition halts :: "'w host \<Rightarrow> val \<Rightarrow> 'w instr \<Rightarrow> 'w frame list \<Rightarrow> bool" where
  "halts orc rt cur stk = (\<forall>rqs env w. \<exists>n r. run n orc rt rqs cur stk env w = Some r)"

definition good :: "'w host \<Rightarrow> val \<Rightarrow> 'w frame list \<Rightarrow> bool" where
  "good orc rt stk = (\<forall>x. halts orc rt (terminal x) stk)"

section \<open>Theorems about Computation.fork\<close>

lemma fold_on_call_delivered:
  "delivered (fold on_call cs s) = delivered s @ cs"
proof (induction cs arbitrary: s)
  case Nil
  show ?case by simp
next
  case (Cons k cs)
  show ?case by (cases k) (simp_all add: Cons.IH onRej_def onRes_def)
qed

lemma fold_on_call_status:
  "status (fold on_call cs s) = (if cs = [] then status s else status_of (last cs))"
proof (induction cs arbitrary: s)
  case Nil
  show ?case by simp
next
  case (Cons k cs)
  show ?case by (cases k) (simp_all add: Cons.IH onRej_def onRes_def)
qed

lemma fold_on_call_started:
  "started (fold on_call cs s) = started s"
proof (induction cs arbitrary: s)
  case Nil
  show ?case by simp
next
  case (Cons k cs)
  show ?case by (cases k) (simp_all add: Cons.IH onRej_def onRes_def)
qed

lemma fold_invoke_started:
  "started s \<Longrightarrow> fold (fork_step c) (map Invoke cs) s = fold on_call cs s"
proof (induction cs arbitrary: s)
  case Nil
  show ?case by simp
next
  case (Cons k cs)
  have "started (on_call k s)"
    using Cons.prems by (cases k) (simp_all add: onRej_def onRes_def)
  then show ?case using Cons.prems Cons.IH by simp
qed

lemma cancel_idempotent: "cancel (cancel s) = cancel s"
  by (simp add: cancel_def)

lemma cancel_after_callback: "cancel (on_call k s) = on_call k s"
  by (cases k) (simp_all add: cancel_def onRej_def onRes_def)

lemma asap_task_delivered:
  "delivered (asap_task (sync, en) fork) = sync @ thrown en"
  by (cases en) (simp_all add: asap_task_def Let_def fold_on_call_delivered fork_def)

lemma asap_task_status:
  "status (asap_task (sync, en) fork) = (if sync = [] then FORKED else status_of (last sync))"
  by (cases en) (simp_all add: asap_task_def Let_def fold_on_call_status fork_def)

lemma asap_task_started: "started (asap_task (sync, en) fork)"
  by (cases en) (simp_all add: asap_task_def Let_def fold_on_call_started fork_def)

text \<open>
  C7, as amended. Once the task has run, every invocation of \<^verbatim>\<open>onRej\<close> or \<^verbatim>\<open>onRes\<close> is
  passed on to the caller's \<^verbatim>\<open>rej\<close> or \<^verbatim>\<open>res\<close>, the first one first and each later one
  after it, and the status is the one of the latest invocation: nothing is ignored.
  Here \<open>sync\<close> are the invocations \<^verbatim>\<open>cmp\<close> makes while it runs, \<open>en\<close> is how it ends (an
  exception it throws is passed to \<^verbatim>\<open>rej\<close> as well) and \<open>later\<close> are the invocations it
  makes afterwards.
\<close>

theorem fork_forwards_every_call:
  "delivered (fork_run (sync, en) (Tick # map Invoke later)) = sync @ thrown en @ later
   \<and> status (fork_run (sync, en) (Tick # map Invoke later))
       = (if later = [] then (if sync = [] then FORKED else status_of (last sync))
          else status_of (last later))"
proof -
  let ?s1 = "asap_task (sync, en) (fork :: ('a, 'b) fork_state)"
  have run: "fork_run (sync, en) (Tick # map Invoke later) = fold on_call later ?s1"
    using fold_invoke_started [OF asap_task_started, of "(sync, en)" later sync en]
    by (simp add: fork_run_def fork_def)
  show ?thesis
    unfolding run
    by (simp add: fold_on_call_delivered fold_on_call_status asap_task_delivered asap_task_status)
qed

theorem fork_forwards_every_call_witness:
  "delivered (fork_run ([RES (1::int)], Throws (3::int)) (Tick # map Invoke [REJ 7, RES 2]))
     = [RES 1, REJ 3, REJ 7, RES 2]
   \<and> status (fork_run ([RES (1::int)], Throws (3::int)) (Tick # map Invoke [REJ 7, RES 2]))
     = RESOLVED"
  using fork_forwards_every_call [of "[RES (1::int)]" "Throws (3::int)" "[REJ (7::int), RES 2]"] by simp

text \<open>
  C7, as stated, fails: \<^verbatim>\<open>cmp\<close> calls \<^verbatim>\<open>res(1)\<close> and later \<^verbatim>\<open>res(2)\<close>; the second call
  is not ignored, the caller's \<^verbatim>\<open>res\<close> is called twice.
\<close>

theorem fork_second_call_not_ignored:
  "delivered (fork_run ([], ReturnsVoid :: int cmp_end) [Tick, Invoke (RES (1::int)), Invoke (RES 2)])
     = [RES 1, RES 2]
   \<and> delivered (fork_run ([], ReturnsVoid :: int cmp_end) [Tick, Invoke (RES (1::int)), Invoke (RES 2)])
     \<noteq> [RES 1]"
  by (simp add: fork_run_def fork_def asap_task_def onRes_def)

text \<open>
  C8, at the failing input: \<^verbatim>\<open>cmp\<close> throws \<^verbatim>\<open>e\<close> synchronously. The caller's \<^verbatim>\<open>rej\<close>
  is called with \<^verbatim>\<open>e\<close>, so the computation has completed, but the status is still
  \<^verbatim>\<open>FORKED\<close>: the cancel function invoked afterwards is not a no-op, it sets the status to
  \<^verbatim>\<open>CANCELLED\<close> and calls the scheduler's handle. On the paths through \<^verbatim>\<open>onRej\<close> and
  \<^verbatim>\<open>onRes\<close> the same call changes nothing (\<open>cancel_after_callback\<close>), and a second call
  of the cancel function never does anything (\<open>cancel_idempotent\<close>).
\<close>

theorem fork_cancel_after_throw:
  "delivered (fork_run ([], Throws e) [Tick]) = [REJ e]
   \<and> status (fork_run ([], Throws e) [Tick]) = FORKED
   \<and> status (fork_run ([], Throws e) [Tick, CancelFork]) = CANCELLED
   \<and> invoked (fork_run ([], Throws e) [Tick, CancelFork]) = [AsapCancel]
   \<and> fork_run ([], Throws e) [Tick, CancelFork] \<noteq> fork_run ([], Throws e) [Tick]"
  by (simp add: fork_run_def fork_def asap_task_def cancel_def)

text \<open>
  The cancel function returned by \<^verbatim>\<open>fork\<close> is idempotent, and after an invocation of
  \<^verbatim>\<open>onRej\<close> or \<^verbatim>\<open>onRes\<close> it changes nothing.
\<close>

theorem cancel_is_idempotent:
  "cancel (cancel s) = cancel s \<and> cancel (on_call k s) = on_call k s"
  by (simp add: cancel_idempotent cancel_after_callback)

section \<open>Theorems about Queue\<close>

lemma setAwaited_itar_eq: "setAwaited_itar list t = (rev t @ list, [])"
proof (induction t arbitrary: list)
  case Nil
  show ?case by (subst setAwaited_itar.simps) simp
next
  case (Cons r t)
  show ?case by (subst setAwaited_itar.simps) (simp add: Cons.IH prepend_def)
qed

lemma offer_no_takers:
  "T s = [] \<Longrightarrow> offer a s = s\<lparr> Q := Q s @ [a], T := [] \<rparr>"
  by (simp add: offer_def setAwaited_def setAwaited_itar_eq pml_add_def asArray_def)

lemma offer_takers:
  "T s \<noteq> [] \<Longrightarrow>
   offer a s = s\<lparr> Q := snd (pml_shift (Q s @ [a])), T := [],
                  awaits := fold (\<lambda>r aw. snd (await_set r a aw)) (rev (T s)) (awaits s) \<rparr>"
  by (simp add: offer_def setAwaited_def setAwaited_itar_eq pml_add_def asArray_def Let_def)

lemma T_offer: "T (offer a s) = []"
  by (cases "T s = []") (simp_all add: offer_no_takers offer_takers)

lemma capacity_offer: "capacity (offer a s) = capacity s"
  by (cases "T s = []") (simp_all add: offer_no_takers offer_takers)

lemma take_queue_empty:
  "Q s = [] \<Longrightarrow>
   take_queue s = (Waits (length (awaits s)),
                   s\<lparr> Q := [], awaits := awaits s @ [None], T := T s @ [length (awaits s)] \<rparr>)"
  by (simp add: take_queue_def pml_add_def Let_def)

lemma take_queue_item:
  "Q s = Defined x # q \<Longrightarrow> take_queue s = (Value (Defined x), s\<lparr> Q := q \<rparr>)"
  by (simp add: take_queue_def)

lemma take_queue_undefined:
  "Q s = Undefined # q \<Longrightarrow>
   take_queue s = (Waits (length (awaits s)),
                   s\<lparr> Q := q, awaits := awaits s @ [None], T := T s @ [length (awaits s)] \<rparr>)"
  by (simp add: take_queue_def pml_add_def Let_def)

lemma capacity_take_queue: "capacity (snd (take_queue s)) = capacity s"
  by (simp add: take_queue_def Let_def split: prod.splits js.splits)

lemma never_both_offer:
  assumes inv: "never_both s" and a: "a \<noteq> Undefined"
  shows "never_both (offer a s)"
proof (cases "T s = []")
  case True
  then show ?thesis using inv a by (simp add: never_both_def offer_no_takers)
next
  case False
  then have "Q s = []" using inv by (simp add: never_both_def)
  then show ?thesis using False by (simp add: never_both_def offer_takers)
qed

lemma never_both_take:
  assumes inv: "never_both s"
  shows "never_both (snd (take_queue s))"
proof (cases "Q s")
  case Nil
  then show ?thesis by (simp add: never_both_def take_queue_empty)
next
  case (Cons y q)
  then have "y \<noteq> Undefined" using inv by (auto simp: never_both_def)
  then obtain x where y: "y = Defined x" by (cases y) simp_all
  have "T s = []" using inv Cons by (simp add: never_both_def)
  then show ?thesis using inv Cons y by (simp add: never_both_def take_queue_item)
qed

lemma never_both_fold:
  "never_both (fst st) \<Longrightarrow> Undefined \<notin> set (offered ops)
   \<Longrightarrow> never_both (fst (fold queue_step ops st))"
proof (induction ops arbitrary: st)
  case Nil
  then show ?case by simp
next
  case (Cons x ops)
  obtain s ts where st: "st = (s, ts)" by (cases st)
  show ?case
  proof (cases x)
    case (Offer a)
    then have "never_both (offer a s)" using Cons.prems st by (intro never_both_offer) auto
    then show ?thesis using Cons.IH [of "(offer a s, ts)"] Cons.prems Offer st by simp
  next
    case Take
    have "never_both (snd (take_queue s))" using Cons.prems st by (intro never_both_take) simp
    then show ?thesis
      using Cons.IH [of "(snd (take_queue s), ts @ [fst (take_queue s)])"] Cons.prems Take st
      by (simp add: case_prod_unfold)
  qed
qed

lemma capacity_step: "capacity (fst (queue_step x st)) = capacity (fst st)"
proof (cases st)
  case (Pair s ts)
  show ?thesis
  proof (cases x)
    case (Offer a)
    then show ?thesis using Pair by (simp add: capacity_offer)
  next
    case Take
    then show ?thesis using Pair capacity_take_queue [of s] by (simp add: case_prod_unfold)
  qed
qed

lemma capacity_fold: "capacity (fst (fold queue_step ops st)) = capacity (fst st)"
  by (induction ops arbitrary: st) (simp_all add: capacity_step)

lemma offers_only: "T s = [] \<Longrightarrow> fold queue_step (map Offer xs) (s, ts) = (s\<lparr> Q := Q s @ xs, T := [] \<rparr>, ts)"
proof (induction xs arbitrary: s)
  case Nil
  then show ?case by simp
next
  case (Cons x xs)
  have "T (offer x s) = []" by (rule T_offer)
  from Cons.IH [OF this] show ?case using Cons.prems by (simp add: offer_no_takers)
qed

text \<open>
  In every state reached from \<^verbatim>\<open>Queue.bounded(cap)\<close> by offers and takes, none of the
  offered values being \<^verbatim>\<open>undefined\<close>, the items and the takers are not both non-empty.
\<close>

lemma never_both_defined:
  assumes "Undefined \<notin> set (offered ops)"
  shows "Q (fst (queue_run cap ops)) = [] \<or> T (fst (queue_run cap ops)) = []"
proof -
  have "never_both (fst (bounded cap, [] :: 'a js taken list))"
    by (simp add: never_both_def bounded_def)
  then have "never_both (fst (queue_run cap ops))"
    unfolding queue_run_def using assms by (rule never_both_fold)
  then show ?thesis by (simp add: never_both_def)
qed

text \<open>
  An item \<^verbatim>\<open>undefined\<close> breaks this: \<^verbatim>\<open>take\<close> removes it, takes the list for empty and
  suspends, although a second item is stored. After \<^verbatim>\<open>offer(undefined)\<close>, \<^verbatim>\<open>offer(7)\<close>
  and \<^verbatim>\<open>take\<close> on \<^verbatim>\<open>Queue.bounded(1)\<close> the items are \<^verbatim>\<open>[7]\<close> and one taker waits.
\<close>

lemma both_after_undefined:
  "Q (fst (queue_run 1 [Offer Undefined, Offer (Defined (7::int)), Take])) = [Defined 7]
   \<and> T (fst (queue_run 1 [Offer Undefined, Offer (Defined (7::int)), Take])) = [0]
   \<and> snd (queue_run 1 [Offer Undefined, Offer (Defined (7::int)), Take]) = [Waits 0]"
  by (simp add: queue_run_def bounded_def offer_no_takers take_queue_undefined)

text \<open>
  The capacity is stored and never read: it is the same in every reachable state, and
  after offers alone the queue holds every offered value, whatever the capacity.
\<close>

lemma offers_ignore_capacity:
  "capacity (fst (queue_run cap ops)) = cap \<and> Q (fst (queue_run cap (map Offer xs))) = xs"
  unfolding queue_run_def by (simp add: capacity_fold offers_only bounded_def)

text \<open>
  C5, at the failing input: \<^verbatim>\<open>offer(1)\<close> and \<^verbatim>\<open>offer(2)\<close> on \<^verbatim>\<open>Queue.bounded(1)\<close>.
  \<^verbatim>\<open>offer\<close> adds the value to the items without reading the capacity, so the queue
  holds two items, one more than its capacity.
\<close>

theorem queue_capacity_exceeded:
  "Q (fst (queue_run 1 [Offer (Defined (1::int)), Offer (Defined 2)])) = [Defined 1, Defined 2]
   \<and> capacity (fst (queue_run 1 [Offer (Defined (1::int)), Offer (Defined 2)])) = 1
   \<and> \<not> int (length (Q (fst (queue_run 1 [Offer (Defined (1::int)), Offer (Defined 2)]))))
        \<le> capacity (fst (queue_run 1 [Offer (Defined (1::int)), Offer (Defined 2)]))"
  by (simp add: queue_run_def bounded_def offer_no_takers T_offer)







lemma fold_await_set_length:
  "length (fold (\<lambda>r aw. snd (await_set r a aw)) rs aw) = length aw"
  by (induction rs arbitrary: aw) (simp_all add: await_set_def)






text \<open>
  The condition on \<^verbatim>\<open>undefined\<close> is needed: after \<^verbatim>\<open>offer(undefined)\<close> a take removes
  the item, finds it \<^verbatim>\<open>undefined\<close> and suspends; the next offer, of 5, completes it. No
  offer was made while more than one take was waiting; the offers were
  \<^verbatim>\<open>[undefined, 5]\<close> and the take returned 5.
\<close>

lemma take_drops_undefined:
  "calm 0 0 [Offer Undefined, Take, Offer (Defined (5::int))]
   \<and> map (returned (fst (queue_run 1 [Offer Undefined, Take, Offer (Defined (5::int))])))
         (snd (queue_run 1 [Offer Undefined, Take, Offer (Defined (5::int))])) = [Some (Defined 5)]
   \<and> offered [Offer Undefined, Take, Offer (Defined (5::int))] = [Undefined, Defined 5]
   \<and> Q (fst (queue_run 1 [Offer Undefined, Take, Offer (Defined (5::int))])) = []"
  by (simp add: queue_run_def bounded_def take_queue_undefined offer_no_takers offer_takers
        await_set_def)

lemma takeN_itar_items:
  "0 \<le> k \<Longrightarrow> nat k \<le> length (Q s) \<Longrightarrow> Undefined \<notin> set (take (nat k) (Q s)) \<Longrightarrow>
   takeN_itar (i + k) i list s
     = (Resolves (rev (take (nat k) (Q s)) @ list), s\<lparr> Q := drop (nat k) (Q s) \<rparr>)"
proof (induction "nat k" arbitrary: k i list s)
  case 0
  then have "k = 0" by simp
  then show ?case by (subst takeN_itar.simps) simp
next
  case (Suc j)
  then obtain x q where Qs: "Q s = x # q" by (cases "Q s") auto
  have k: "nat k = Suc j" "k = int j + 1" using Suc.hyps Suc.prems by simp_all
  have "x \<in> set (take (nat k) (Q s))" using Qs k(1) by simp
  then have "x \<noteq> Undefined" using Suc.prems(3) by auto
  then obtain y where y: "x = Defined y" by (cases x) simp_all
  have Qy: "Q s = Defined y # q" using Qs y by simp
  have e: "i + k = (i + 1) + int j" using k by simp
  have "takeN_itar (i + k) i list s = takeN_itar (i + k) (i + 1) (x # list) (s\<lparr> Q := q \<rparr>)"
    using k y by (subst takeN_itar.simps) (simp add: take_queue_item [OF Qy] prepend_def)
  then have step: "takeN_itar (i + k) i list s = takeN_itar ((i + 1) + int j) (i + 1) (x # list) (s\<lparr> Q := q \<rparr>)"
    unfolding e .
  have "takeN_itar ((i + 1) + int j) (i + 1) (x # list) (s\<lparr> Q := q \<rparr>)
        = (Resolves (rev (take (nat (int j)) (Q (s\<lparr> Q := q \<rparr>))) @ x # list),
           (s\<lparr> Q := q \<rparr>)\<lparr> Q := drop (nat (int j)) (Q (s\<lparr> Q := q \<rparr>)) \<rparr>)"
  proof (intro Suc.hyps(1))
    show "j = nat (int j)" by simp
    show "0 \<le> int j" by simp
    show "nat (int j) \<le> length (Q (s\<lparr> Q := q \<rparr>))" using Suc.prems(2) Qs k(1) by simp
    have "set (take j q) \<subseteq> set (take (nat k) (Q s))" using Qs k(1) by auto
    then show "Undefined \<notin> set (take (nat (int j)) (Q (s\<lparr> Q := q \<rparr>)))"
      using Suc.prems(3) by auto
  qed
  then show ?case using step k Qs by simp
qed

lemma takeN_items:
  "0 \<le> n \<Longrightarrow> nat n \<le> length (Q s) \<Longrightarrow> Undefined \<notin> set (take (nat n) (Q s)) \<Longrightarrow>
   takeN n s = (Resolves (rev (take (nat n) (Q s))), s\<lparr> Q := drop (nat n) (Q s) \<rparr>)"
  using takeN_itar_items [of n s 0 "[]"] by (simp add: takeN_def asArray_def)

text \<open>
  C6, at the failing input: the queue holds 1 and 2 (offered in this order) and
  \<^verbatim>\<open>takeN(2)\<close> is run. The first take returns 1, the second 2, and \<^verbatim>\<open>takeN\<close> resolves
  with \<^verbatim>\<open>[2, 1]\<close>: each value is prepended to the list and \<^verbatim>\<open>asArray\<close> is returned
  without the \<^verbatim>\<open>reverse()\<close> that \<^verbatim>\<open>QIO.par\<close> applies. It is the same when both takes
  suspend first and 1 and 2 are offered afterwards (second conjunct). In general
  \<^verbatim>\<open>takeN(n)\<close> on a queue with at least \<open>n\<close> items resolves with the first \<open>n\<close> items
  reversed (\<open>takeN_items\<close>).
\<close>

theorem takeN_reverses:
  "takeN 2 (fst (queue_run 10 [Offer (Defined (1::int)), Offer (Defined 2)])) = (Resolves [Defined 2, Defined 1], bounded 10)
   \<and> takeN_resume 2
         (case takeN_resume 2 (case takeN 2 (bounded 10) of (p, s) \<Rightarrow> (p, offer (Defined (1::int)) s))
          of (p, s) \<Rightarrow> (p, offer (Defined 2) s))
       = (Resolves [Defined 2, Defined 1], (bounded 10)\<lparr> awaits := [Some (Defined 1), Some (Defined 2)] \<rparr>)"
proof -
  have a: "takeN 2 (fst (queue_run 10 [Offer (Defined (1::int)), Offer (Defined 2)])) = (Resolves [Defined 2, Defined 1], bounded 10)"
    using takeN_items [of 2 "fst (queue_run 10 [Offer (Defined (1::int)), Offer (Defined 2)])"]
    by (simp add: queue_run_def bounded_def offer_no_takers T_offer)
  have b: "takeN 2 (bounded 10 :: int js queue_state)
             = (Suspends 0 0 [], (bounded 10)\<lparr> awaits := [None], T := [0] \<rparr>)"
    by (simp add: takeN_def takeN_itar.simps take_queue_empty bounded_def)
  have c: "takeN_resume 2 (Suspends 0 0 [], offer (Defined (1::int)) ((bounded 10)\<lparr> awaits := [None], T := [0] \<rparr>))
             = (Suspends 1 1 [Defined 1], (bounded 10)\<lparr> awaits := [Some (Defined 1), None], T := [1] \<rparr>)"
    by (simp add: takeN_resume_def takeN_itar.simps take_queue_empty bounded_def offer_takers
          await_set_def prepend_def)
  have d: "takeN_resume 2 (Suspends 1 1 [Defined 1], offer (Defined (2::int)) ((bounded 10)\<lparr> awaits := [Some (Defined 1), None], T := [1] \<rparr>))
             = (Resolves [Defined 2, Defined 1], (bounded 10)\<lparr> awaits := [Some (Defined 1), Some (Defined 2)] \<rparr>)"
    by (simp add: takeN_resume_def takeN_itar.simps bounded_def offer_takers
          await_set_def prepend_def asArray_def)
  show ?thesis using a b c d by simp
qed

text \<open>
  \<^verbatim>\<open>take\<close> on a queue whose oldest item is not \<^verbatim>\<open>undefined\<close> succeeds at once with
  that item and removes it; on an empty queue it suspends on a new \<^verbatim>\<open>Await\<close>, which it
  appends to the takers; on a queue whose oldest item is \<^verbatim>\<open>undefined\<close> it removes the
  item and suspends in the same way.
\<close>

theorem take_oldest_or_wait:
  "(Q s = Defined x # q \<longrightarrow> take_queue s = (Value (Defined x), s\<lparr> Q := q \<rparr>))
   \<and> (Q s = [] \<longrightarrow> fst (take_queue s) = Waits (length (awaits s))
                     \<and> T (snd (take_queue s)) = T s @ [length (awaits s)]
                     \<and> Q (snd (take_queue s)) = [])
   \<and> (Q s = Undefined # q \<longrightarrow> fst (take_queue s) = Waits (length (awaits s))
                     \<and> T (snd (take_queue s)) = T s @ [length (awaits s)]
                     \<and> Q (snd (take_queue s)) = q)"
  by (simp add: take_queue_empty take_queue_item take_queue_undefined)

theorem take_oldest_or_wait_witness:
  "take_queue (fst (queue_run 3 [Offer (Defined (1::int)), Offer (Defined 2)]))
     = (Value (Defined 1), (bounded 3)\<lparr> Q := [Defined 2] \<rparr>)
   \<and> fst (take_queue (bounded 3 :: int js queue_state)) = Waits 0
   \<and> T (snd (take_queue (bounded 3 :: int js queue_state))) = [0]
   \<and> Q (snd (take_queue (fst (queue_run 3 [Offer Undefined, Offer (Defined (2::int))])))) = [Defined 2]
   \<and> T (snd (take_queue (fst (queue_run 3 [Offer Undefined, Offer (Defined (2::int))])))) = [0]"
  using take_oldest_or_wait [of "fst (queue_run 3 [Offer (Defined (1::int)), Offer (Defined 2)])" 1 "[Defined 2]"]
        take_oldest_or_wait [of "bounded 3 :: int js queue_state"]
        take_oldest_or_wait [of "fst (queue_run 3 [Offer Undefined, Offer (Defined (2::int))])" _ "[Defined 2]"]
  by (simp add: queue_run_def bounded_def offer_no_takers)

section \<open>Theorems about QIO.parN\<close>

lemma slice_head: "1 \<le> N \<Longrightarrow> slice 0 N list = take (nat N) list"
  by (auto simp: slice_def Let_def min_def)

lemma slice_tail: "1 \<le> N \<Longrightarrow> slice N (int (length list)) list = drop (nat N) list"
  by (auto simp: slice_def Let_def min_def)

lemma slice_tail_stuck:
  "N \<le> 0 \<Longrightarrow> list \<noteq> [] \<Longrightarrow> slice N (int (length list)) list \<noteq> []"
  by (auto simp: slice_def Let_def max_def)

lemma slice_zero: "slice 0 (int (length list)) list = list"
  by (simp add: slice_def)

lemma parN_itar_diverges:
  fixes par :: "'io list \<Rightarrow> 'v list option"
  assumes ret: "parN_itar par N list = Some y"
  shows "1 \<le> N \<or> list = []"
proof (rule parN_itar.raw_induct [where P = "\<lambda>par N list y. 1 \<le> N \<or> list = []", OF _ ret])
  fix itar :: "('io list \<Rightarrow> 'v list option) \<Rightarrow> int \<Rightarrow> 'io list \<Rightarrow> 'v list option"
  fix par :: "'io list \<Rightarrow> 'v list option" and N list y
  assume ih: "\<And>p n l r. itar p n l = Some r \<Longrightarrow> 1 \<le> n \<or> l = []"
  assume eq: "(if length list = 0 then Some []
      else Option.bind (par (slice 0 N list))
             (\<lambda>l1. Option.bind (itar par N (slice N (int (length list)) list))
                (\<lambda>l2. Some (l1 @ l2)))) = Some y"
  show "1 \<le> N \<or> list = []"
  proof (rule ccontr)
    assume "\<not> (1 \<le> N \<or> list = [])"
    then have N: "N \<le> 0" and ne: "list \<noteq> []" by simp_all
    from eq ne obtain l2 where "itar par N (slice N (int (length list)) list) = Some l2"
      by (auto simp: bind_eq_Some_conv)
    from ih [OF this] N slice_tail_stuck [OF N ne] show False by simp
  qed
qed

lemma parN_itar_terminates:
  assumes N: "1 \<le> N" and tot: "\<forall>c. par c \<noteq> None"
  shows "parN_itar par N list \<noteq> None"
proof (induction "length list" arbitrary: list rule: less_induct)
  case less
  show ?case
  proof (cases "list = []")
    case True
    then show ?thesis by (subst parN_itar.simps) simp
  next
    case False
    have "length (drop (nat N) list) < length list" using N False by simp
    from less [OF this] obtain l2 where l2: "parN_itar par N (drop (nat N) list) = Some l2" by auto
    obtain l1 where l1: "par (take (nat N) list) = Some l1" using tot by auto
    show ?thesis
      by (subst parN_itar.simps) (simp add: False slice_head [OF N] slice_tail [OF N] l1 l2)
  qed
qed

lemma parN_itar_values:
  assumes N: "1 \<le> N" and par: "\<forall>c. par c = Some (map f c)"
  shows "parN_itar par N list = Some (map f list)"
proof (induction "length list" arbitrary: list rule: less_induct)
  case less
  show ?case
  proof (cases "list = []")
    case True
    then show ?thesis by (subst parN_itar.simps) simp
  next
    case False
    have "length (drop (nat N) list) < length list" using N False by simp
    from less [OF this] have l2: "parN_itar par N (drop (nat N) list) = Some (map f (drop (nat N) list))" .
    have "map f (take (nat N) list) @ map f (drop (nat N) list) = map f list"
      by (simp flip: map_append)
    then show ?thesis
      by (subst parN_itar.simps) (simp add: False slice_head [OF N] slice_tail [OF N] par l2)
  qed
qed

text \<open>
  C10. Let \<^verbatim>\<open>QIO.par\<close> resolve every chunk with a value. Then \<^verbatim>\<open>parN(N, list)\<close> resolves
  exactly when \<open>N \<ge> 1\<close> or the list is empty; and for \<open>N \<ge> 1\<close> each step runs the first
  \<open>N\<close> elements (\<^verbatim>\<open>slice(0, N)\<close>) and recurs on the list without them
  (\<^verbatim>\<open>slice(N, length)\<close>). For \<open>N \<le> 0\<close> and a non-empty list \<^verbatim>\<open>slice(N, length)\<close> is never
  empty and the recursion does not end.
\<close>

theorem parN_terminates_iff:
  "(\<forall>c. par c \<noteq> None) \<longrightarrow>
     ((parN par N list \<noteq> None) = (1 \<le> N \<or> list = []))
     \<and> (1 \<le> N \<longrightarrow> slice 0 N list = take (nat N) list
                  \<and> slice N (int (length list)) list = drop (nat N) list)"
proof (intro impI conjI)
  assume tot: "\<forall>c. par c \<noteq> None"
  show "(parN par N list \<noteq> None) = (1 \<le> N \<or> list = [])"
  proof
    assume "parN par N list \<noteq> None"
    then obtain y where "parN_itar par N list = Some y" by (auto simp: parN_def)
    then show "1 \<le> N \<or> list = []" by (rule parN_itar_diverges)
  next
    assume "1 \<le> N \<or> list = []"
    then show "parN par N list \<noteq> None"
    proof
      assume "1 \<le> N"
      then show ?thesis unfolding parN_def using tot by (rule parN_itar_terminates)
    next
      assume "list = []"
      then show ?thesis unfolding parN_def by (subst parN_itar.simps) simp
    qed
  qed
next
  assume "1 \<le> N"
  then show "slice 0 N list = take (nat N) list" by (rule slice_head)
next
  assume "1 \<le> N"
  then show "slice N (int (length list)) list = drop (nat N) list" by (rule slice_tail)
qed

theorem parN_terminates_iff_witness:
  "parN Some 2 [1::int, 2, 3] \<noteq> None
   \<and> slice 0 2 [1::int, 2, 3] = [1, 2]
   \<and> slice 2 (int (length [1::int, 2, 3])) [1::int, 2, 3] = [3]
   \<and> parN Some 0 [1::int] = None
   \<and> parN Some (- 1) [1::int, 2] = None"
  using parN_terminates_iff [of Some 2 "[1::int, 2, 3]"]
        parN_terminates_iff [of Some 0 "[1::int]"]
        parN_terminates_iff [of Some "- 1" "[1::int, 2]"]
  by simp

text \<open>
  For \<open>N \<ge> 1\<close>, if \<^verbatim>\<open>QIO.par\<close> resolves every chunk with the values of its effects in
  their order, \<^verbatim>\<open>parN(N, list)\<close> resolves with the values of the whole list in the order
  of the list.
\<close>

theorem parN_in_order:
  "1 \<le> N \<Longrightarrow> \<forall>c. par c = Some (map f c) \<Longrightarrow> parN par N list = Some (map f list)"
  unfolding parN_def by (rule parN_itar_values)

theorem parN_in_order_witness:
  "(1::int) \<le> 2 \<and> parN (\<lambda>c. Some (map (\<lambda>x. x + 1) c)) 2 [1::int, 2, 3] = Some [2, 3, 4]"
  using parN_in_order [of 2 "\<lambda>c. Some (map (\<lambda>x. x + 1) c)" "\<lambda>x. x + 1" "[1::int, 2, 3]"]
  by simp

section \<open>Theorems about the interpreter\<close>

lemma run_Continue:
  "step rt cur stk env w = Continue cur' stk' env' w' \<Longrightarrow>
   run (Suc n) orc rt rqs cur stk env w = run n orc rt rqs cur' stk' env' w'"
  by simp

lemma run_Complete:
  "step rt cur stk env w = Complete x w' \<Longrightarrow>
   run (Suc n) orc rt rqs cur stk env w = Some \<lparr> ending = Exited x, world = w', requests = rqs \<rparr>"
  by simp

lemma run_Suspend_None:
  "step rt cur stk env w = Suspend rq stk' env' w' \<Longrightarrow> orc (length rqs) rq w' = None \<Longrightarrow>
   run (Suc n) orc rt rqs cur stk env w = Some \<lparr> ending = Hangs, world = w', requests = rqs @ [rq] \<rparr>"
  by simp

lemma run_Suspend_Some:
  "step rt cur stk env w = Suspend rq stk' env' w' \<Longrightarrow> orc (length rqs) rq w' = Some (x, w'') \<Longrightarrow>
   run (Suc n) orc rt rqs cur stk env w = run n orc rt (rqs @ [rq]) (terminal x) stk' env' w''"
  by simp

declare run.simps(2) [simp del]

lemma run_mono:
  "run n orc rt rqs cur stk env w = Some r \<Longrightarrow> run (n + k) orc rt rqs cur stk env w = Some r"
proof (induction n arbitrary: rqs cur stk env w)
  case 0
  then show ?case by simp
next
  case (Suc n)
  show ?case
  proof (cases "step rt cur stk env w")
    case (Continue cur' stk' env' w')
    then show ?thesis using Suc.prems Suc.IH [of rqs cur' stk' env' w']
      by (simp add: run_Continue)
  next
    case (Complete x w')
    then show ?thesis using Suc.prems by (simp add: run_Complete)
  next
    case (Suspend rq stk' env' w')
    show ?thesis
    proof (cases "orc (length rqs) rq w'")
      case None
      then show ?thesis using Suspend Suc.prems by (simp add: run_Suspend_None)
    next
      case (Some p)
      obtain x w'' where p: "p = (x, w'')" by (cases p)
      show ?thesis using Suspend Some p Suc.prems Suc.IH [of "rqs @ [rq]" "terminal x" stk' env' w'']
        by (simp add: run_Suspend_Some)
    qed
  qed
qed

text \<open>Every evaluation ends: by induction on the instruction, for every stack whose
  frames lead to evaluations that end.\<close>

lemma halts_step:
  assumes "\<And>env w. \<exists>cur' env' w'. step rt cur stk env w = Continue cur' stk' env' w' \<and> halts orc rt cur' stk'"
  shows "halts orc rt cur stk"
  unfolding halts_def
proof (intro allI)
  fix rqs env w
  from assms [of env w] obtain cur' env' w' where
    s: "step rt cur stk env w = Continue cur' stk' env' w'" and h: "halts orc rt cur' stk'" by blast
  from h obtain n r where "run n orc rt rqs cur' stk' env' w' = Some r"
    unfolding halts_def by blast
  then have "run (Suc n) orc rt rqs cur stk env w = Some r" using s by (simp add: run_Continue)
  then show "\<exists>n r. run n orc rt rqs cur stk env w = Some r" by blast
qed

lemma halts_ask:
  assumes "\<And>env w. \<exists>rq w'. step rt cur stk env w = Suspend rq stk env w'" and "good orc rt stk"
  shows "halts orc rt cur stk"
  unfolding halts_def
proof (intro allI)
  fix rqs env w
  from assms(1) [of env w] obtain rq w' where
    s: "step rt cur stk env w = Suspend rq stk env w'" by blast
  show "\<exists>n r. run n orc rt rqs cur stk env w = Some r"
  proof (cases "orc (length rqs) rq w'")
    case None
    then have "run (Suc 0) orc rt rqs cur stk env w
                 = Some \<lparr> ending = Hangs, world = w', requests = rqs @ [rq] \<rparr>"
      using s by (simp add: run_Suspend_None)
    then show ?thesis by blast
  next
    case (Some p)
    obtain x w'' where p: "p = (x, w'')" by (cases p)
    from assms(2) obtain n r where "run n orc rt (rqs @ [rq]) (terminal x) stk env w'' = Some r"
      unfolding good_def halts_def by blast
    then have "run (Suc n) orc rt rqs cur stk env w = Some r"
      using s Some p by (simp add: run_Suspend_Some)
    then show ?thesis by blast
  qed
qed

lemma good_Nil: "good orc rt []"
  unfolding good_def halts_def
proof (intro allI)
  fix x :: exit and rqs env and w :: 'a
  have "step rt (terminal x) [] env w = Complete x w"
    by (cases x) (simp_all add: step_def)
  then have "run (Suc 0) orc rt rqs (terminal x) [] env w
               = Some \<lparr> ending = Exited x, world = w, requests = rqs \<rparr>"
    by (simp add: run_Complete)
  then show "\<exists>n r. run n orc rt rqs (terminal x) [] env w = Some r" by blast
qed

lemma good_Apply:
  assumes k: "\<And>a. halts orc rt (k a) stk" and g: "good orc rt stk"
  shows "good orc rt (Apply k # stk)"
  unfolding good_def
proof
  fix x
  show "halts orc rt (terminal x) (Apply k # stk)"
  proof (cases x)
    case (Success a)
    show ?thesis
      by (rule halts_step [where stk' = stk]) (use Success k in \<open>auto simp: step_def\<close>)
  next
    case (Failure e)
    have "halts orc rt (Reject e) stk" using g [unfolded good_def, rule_format, of "Failure e"] by simp
    then show ?thesis
      by (intro halts_step [where stk' = stk]) (use Failure in \<open>auto simp: step_def\<close>)
  qed
qed

lemma good_Recover:
  assumes h: "\<And>e. halts orc rt (h e) stk" and g: "good orc rt stk"
  shows "good orc rt (Recover h # stk)"
  unfolding good_def
proof
  fix x
  show "halts orc rt (terminal x) (Recover h # stk)"
  proof (cases x)
    case (Failure e)
    show ?thesis
      by (rule halts_step [where stk' = stk]) (use Failure h in \<open>auto simp: step_def\<close>)
  next
    case (Success a)
    have "halts orc rt (Constant a) stk" using g [unfolded good_def, rule_format, of "Success a"] by simp
    then show ?thesis
      by (intro halts_step [where stk' = stk]) (use Success in \<open>auto simp: step_def\<close>)
  qed
qed

lemma good_WithEnv:
  assumes g: "good orc rt stk"
  shows "good orc rt (WithEnv r # stk)"
  unfolding good_def
proof
  fix x
  have "halts orc rt (terminal x) stk" using g by (simp add: good_def)
  then show "halts orc rt (terminal x) (WithEnv r # stk)"
    by (intro halts_step [where stk' = stk]) (cases x; auto simp: step_def)
qed

lemma halts_all: "good orc rt stk \<Longrightarrow> halts orc rt cur stk"
proof (induction cur arbitrary: stk)
  case (Access f)
  then show ?case
    by (intro halts_step [where stk' = stk]) (auto simp: step_def good_def)
next
  case (Async reg)
  then show ?case by (intro halts_ask) (auto simp: step_def)
next
  case (Call f args)
  then show ?case
    by (intro halts_step [where stk' = stk]) (auto simp: step_def intro: rangeI)
next
  case (Catch m h)
  have "good orc rt (Recover h # stk)"
    using Catch by (intro good_Recover) (auto intro: rangeI)
  then have "halts orc rt m (Recover h # stk)" by (rule Catch.IH(1))
  then show ?case
    by (intro halts_step [where stk' = "Recover h # stk"]) (auto simp: step_def)
next
  case (Chain m k)
  have "good orc rt (Apply k # stk)"
    using Chain by (intro good_Apply) (auto intro: rangeI)
  then have "halts orc rt m (Apply k # stk)" by (rule Chain.IH(1))
  then show ?case
    by (intro halts_step [where stk' = "Apply k # stk"]) (auto simp: step_def)
next
  case (Constant a)
  then show ?case using good_def [of orc rt stk] by (auto dest: spec [of _ "Success a"])
next
  case (Fork m r)
  then show ?case by (intro halts_ask) (auto simp: step_def)
next
  case (Map m f)
  have "\<And>a. halts orc rt (terminal (f a)) stk" using Map.prems by (simp add: good_def)
  then have "good orc rt (Apply (\<lambda>a. terminal (f a)) # stk)"
    using Map.prems by (intro good_Apply) auto
  then have "halts orc rt m (Apply (\<lambda>a. terminal (f a)) # stk)" by (rule Map.IH)
  then show ?case
    by (intro halts_step [where stk' = "Apply (\<lambda>a. terminal (f a)) # stk"]) (auto simp: step_def)
next
  case Never
  then show ?case by (intro halts_ask) (auto simp: step_def)
next
  case AwaitOf
  then show ?case by (intro halts_ask) (auto simp: step_def)
next
  case (AwaitSet a m)
  then show ?case by (intro halts_ask) (auto simp: step_def)
next
  case (AwaitGet a)
  then show ?case by (intro halts_ask) (auto simp: step_def)
next
  case (FiberAbort f)
  then show ?case by (intro halts_ask) (auto simp: step_def)
next
  case (FiberAwait f)
  then show ?case by (intro halts_ask) (auto simp: step_def)
next
  case (Provide m r)
  have "good orc rt (WithEnv env # stk)" for env using Provide.prems by (rule good_WithEnv)
  then have h: "halts orc rt m (WithEnv env # stk)" for env by (rule Provide.IH)
  show ?case unfolding halts_def
  proof (intro allI)
    fix rqs env w
    from h [of env] obtain n res where "run n orc rt rqs m (WithEnv env # stk) r w = Some res"
      unfolding halts_def by blast
    then have "run (Suc n) orc rt rqs (Provide m r) stk env w = Some res"
      by (simp add: run_Continue step_def)
    then show "\<exists>n ra. run n orc rt rqs (Provide m r) stk env w = Some ra" by blast
  qed
next
  case (Reject e)
  then show ?case using good_def [of orc rt stk] by (auto dest: spec [of _ "Failure e"])
next
  case Runtime
  then show ?case
    using good_def [of orc rt stk]
    by (intro halts_step [where stk' = stk]) (auto simp: step_def dest: spec [of _ "Success rt"])
next
  case (Try thunk)
  then show ?case
    by (intro halts_step [where stk' = stk]) (auto simp: step_def good_def split: prod.splits)
next
  case (TryM thunk)
  show ?case
  proof (rule halts_step [where stk' = stk])
    fix env w
    obtain m w' where t: "thunk w = (m, w')" by (cases "thunk w")
    then have "(m, w') \<in> range thunk" by (metis rangeI)
    then have "halts orc rt m stk" using TryM by auto
    then show "\<exists>cur' env' w'. step rt (TryM thunk) stk env w = Continue cur' stk env' w' \<and> halts orc rt cur' stk"
      using t by (simp add: step_def)
  qed
qed

lemma good_all: "good orc rt stk"
proof (induction stk)
  case Nil
  show ?case by (rule good_Nil)
next
  case (Cons fr stk)
  show ?case
  proof (cases fr)
    case (Apply k)
    show ?thesis unfolding Apply using Cons by (intro good_Apply halts_all)
  next
    case (Recover h)
    show ?thesis unfolding Recover using Cons by (intro good_Recover halts_all)
  next
    case (WithEnv r)
    show ?thesis unfolding WithEnv using Cons by (intro good_WithEnv)
  qed
qed

lemma run_total: "\<exists>n r. run n orc rt rqs cur stk env w = Some r"
  using halts_all [OF good_all, of orc rt cur stk] unfolding halts_def by blast

lemma run_deterministic:
  assumes "run n orc rt rqs cur stk env w = Some r" and "run n' orc rt rqs cur stk env w = Some r'"
  shows "r = r'"
proof -
  have "run (n + n') orc rt rqs cur stk env w = Some r" using assms(1) by (rule run_mono)
  moreover have "run (n' + n) orc rt rqs cur stk env w = Some r'" using assms(2) by (rule run_mono)
  ultimately show ?thesis by (simp add: add.commute)
qed

lemma srel_append: "srel s s' \<Longrightarrow> srel (fs @ s) (fs @ s')"
  by (induction fs) (auto intro: srel.intros)

lemma unwind_cons:
  "\<exists>c e. \<forall>s. unwind x (fr # s) env w = Continue c s e w"
  by (cases fr; cases x) auto

lemma reduce_Terminal: "reduce rt cur env w = Terminal x \<Longrightarrow> cur = terminal x"
  by (cases cur) (auto split: prod.splits)

lemma simulation:
  "run n orc rt rqs cur s env w = Some r \<Longrightarrow>
   srel s s' \<or> (\<exists>e g s1. cur = Reject e \<and> s = Apply g # s1 \<and> srel s1 s') \<Longrightarrow>
   \<exists>n'. run n' orc rt rqs cur s' env w = Some r"
proof (induction n arbitrary: rqs cur s s' env w)
  case 0
  then show ?case by simp
next
  case (Suc n)
  from Suc.prems(2) show ?case
  proof
    assume "\<exists>e g s1. cur = Reject e \<and> s = Apply g # s1 \<and> srel s1 s'"
    then obtain e g s1 where c: "cur = Reject e" "s = Apply g # s1" and rel: "srel s1 s'" by blast
    have "step rt cur s env w = Continue (Reject e) s1 env w" using c by (simp add: step_def)
    then have "run n orc rt rqs (Reject e) s1 env w = Some r"
      using Suc.prems(1) by (simp add: run_Continue)
    from Suc.IH [OF this, of s'] rel show ?thesis using c by blast
  next
    assume rel: "srel s s'"
    show ?thesis
    proof (cases "reduce rt cur env w")
      case (Next cur' fs env' w')
      then have st: "step rt cur s env w = Continue cur' (fs @ s) env' w'"
        and st': "step rt cur s' env w = Continue cur' (fs @ s') env' w'"
        by (simp_all add: step_def)
      have "run n orc rt rqs cur' (fs @ s) env' w' = Some r"
        using Suc.prems(1) st by (simp add: run_Continue)
      from Suc.IH [OF this, of "fs @ s'"] srel_append [OF rel]
      obtain n' where "run n' orc rt rqs cur' (fs @ s') env' w' = Some r" by blast
      then have "run (Suc n') orc rt rqs cur s' env w = Some r" using st' by (simp add: run_Continue)
      then show ?thesis by blast
    next
      case (Ask rq w')
      then have st: "step rt cur s env w = Suspend rq s env w'"
        and st': "step rt cur s' env w = Suspend rq s' env w'"
        by (simp_all add: step_def)
      show ?thesis
      proof (cases "orc (length rqs) rq w'")
        case None
        then have "run (Suc n) orc rt rqs cur s env w = run (Suc 0) orc rt rqs cur s' env w"
          using st st' by (simp add: run_Suspend_None)
        then show ?thesis using Suc.prems(1) by metis
      next
        case (Some p)
        obtain x w'' where p: "p = (x, w'')" by (cases p)
        have "run n orc rt (rqs @ [rq]) (terminal x) s env w'' = Some r"
          using Suc.prems(1) st Some p by (simp add: run_Suspend_Some)
        from Suc.IH [OF this, of s'] rel
        obtain n' where "run n' orc rt (rqs @ [rq]) (terminal x) s' env w'' = Some r" by blast
        then have "run (Suc n') orc rt rqs cur s' env w = Some r"
          using st' Some p by (simp add: run_Suspend_Some)
        then show ?thesis by blast
      qed
    next
      case (Terminal x)
      then have cur: "cur = terminal x" by (rule reduce_Terminal)
      have st: "step rt cur s env w = unwind x s env w" for s
        using Terminal by (simp add: step_def)
      from rel show ?thesis
      proof (cases rule: srel.cases)
        case srel_refl
        then show ?thesis using Suc.prems(1) by blast
      next
        case (srel_cons s0 s0' fr)
        obtain c e where u: "\<And>t. unwind x (fr # t) env w = Continue c t e w"
          using unwind_cons [of x fr env w] by blast
        have "run n orc rt rqs c s0 e w = Some r"
          using Suc.prems(1) st [of s] u [of s0] srel_cons by (simp add: run_Continue)
        from Suc.IH [OF this, of s0'] srel_cons
        obtain n' where "run n' orc rt rqs c s0' e w = Some r" by blast
        then have "run (Suc n') orc rt rqs cur s' env w = Some r"
          using st [of s'] u [of s0'] srel_cons by (simp add: run_Continue)
        then show ?thesis by blast
      next
        case (srel_unit s0)
        have "step rt cur s env w = Continue cur s0 env w"
          using st [of s] srel_unit cur by (cases x) simp_all
        then have "run n orc rt rqs cur s0 env w = Some r"
          using Suc.prems(1) by (simp add: run_Continue)
        from Suc.IH [OF this, of s'] srel_unit show ?thesis by blast
      next
        case (srel_assoc s0 s0' f g)
        show ?thesis
        proof (cases x)
          case (Success a)
          have "step rt cur s env w = Continue (f a) (Apply g # s0) env w"
            using st [of s] srel_assoc Success by simp
          then have "run n orc rt rqs (f a) (Apply g # s0) env w = Some r"
            using Suc.prems(1) by (simp add: run_Continue)
          from Suc.IH [OF this, of "Apply g # s0'"] srel_assoc
          obtain n' where n': "run n' orc rt rqs (f a) (Apply g # s0') env w = Some r"
            by (blast intro: srel.intros)
          have "step rt cur s' env w = Continue (Chain (f a) g) s0' env w"
            using st [of s'] srel_assoc Success by simp
          moreover have "step rt (Chain (f a) g) s0' env w = Continue (f a) (Apply g # s0') env w"
            by (simp add: step_def)
          ultimately have "run (Suc (Suc n')) orc rt rqs cur s' env w = Some r"
            using n' by (simp add: run_Continue)
          then show ?thesis by blast
        next
          case (Failure e)
          have "step rt cur s env w = Continue (Reject e) (Apply g # s0) env w"
            using st [of s] srel_assoc Failure by simp
          then have "run n orc rt rqs (Reject e) (Apply g # s0) env w = Some r"
            using Suc.prems(1) by (simp add: run_Continue)
          from Suc.IH [OF this, of s0'] srel_assoc
          obtain n' where n': "run n' orc rt rqs (Reject e) s0' env w = Some r" by blast
          have "step rt cur s' env w = Continue (Reject e) s0' env w"
            using st [of s'] srel_assoc Failure by simp
          then have "run (Suc n') orc rt rqs cur s' env w = Some r"
            using n' by (simp add: run_Continue)
          then show ?thesis by blast
        qed
      qed
    qed
  qed
qed

lemma left_identity: "equivalent (Chain (Constant a) f) (f a)"
  unfolding equivalent_def
proof (intro allI)
  fix orc rt rqs stk env and w :: 'a
  obtain n r where n: "run n orc rt rqs (f a) stk env w = Some r"
    using run_total [of orc rt rqs "f a" stk env w] by blast
  have "step rt (Chain (Constant a) f) stk env w = Continue (Constant a) (Apply f # stk) env w"
    by (simp add: step_def)
  moreover have "step rt (Constant a) (Apply f # stk) env w = Continue (f a) stk env w"
    by (simp add: step_def)
  ultimately have "run (Suc (Suc n)) orc rt rqs (Chain (Constant a) f) stk env w = Some r"
    using n by (simp add: run_Continue)
  then show "\<exists>n n' r. run n orc rt rqs (Chain (Constant a) f) stk env w = Some r
                    \<and> run n' orc rt rqs (f a) stk env w = Some r"
    using n by blast
qed

lemma right_identity: "equivalent (Chain m Constant) m"
  unfolding equivalent_def
proof (intro allI)
  fix orc rt rqs stk env and w :: 'a
  obtain n r where n: "run n orc rt rqs m (Apply Constant # stk) env w = Some r"
    using run_total [of orc rt rqs m "Apply Constant # stk" env w] by blast
  have "step rt (Chain m Constant) stk env w = Continue m (Apply Constant # stk) env w"
    by (simp add: step_def)
  then have a: "run (Suc n) orc rt rqs (Chain m Constant) stk env w = Some r"
    using n by (simp add: run_Continue)
  have "srel (Apply Constant # stk) stk" by (intro srel.intros)
  with simulation [OF n, of stk] obtain n' where "run n' orc rt rqs m stk env w = Some r" by blast
  with a show "\<exists>n n' r. run n orc rt rqs (Chain m Constant) stk env w = Some r
                    \<and> run n' orc rt rqs m stk env w = Some r"
    by blast
qed

lemma associativity: "equivalent (Chain (Chain m f) g) (Chain m (\<lambda>x. Chain (f x) g))"
  unfolding equivalent_def
proof (intro allI)
  fix orc rt rqs stk env and w :: 'a
  obtain n r where n: "run n orc rt rqs m (Apply f # Apply g # stk) env w = Some r"
    using run_total [of orc rt rqs m "Apply f # Apply g # stk" env w] by blast
  have "step rt (Chain (Chain m f) g) stk env w = Continue (Chain m f) (Apply g # stk) env w"
    by (simp add: step_def)
  moreover have "step rt (Chain m f) (Apply g # stk) env w = Continue m (Apply f # Apply g # stk) env w"
    by (simp add: step_def)
  ultimately have a: "run (Suc (Suc n)) orc rt rqs (Chain (Chain m f) g) stk env w = Some r"
    using n by (simp add: run_Continue)
  have "srel (Apply f # Apply g # stk) (Apply (\<lambda>x. Chain (f x) g) # stk)" by (intro srel.intros)
  with simulation [OF n, of "Apply (\<lambda>x. Chain (f x) g) # stk"]
  obtain n' where n': "run n' orc rt rqs m (Apply (\<lambda>x. Chain (f x) g) # stk) env w = Some r" by blast
  have "step rt (Chain m (\<lambda>x. Chain (f x) g)) stk env w
          = Continue m (Apply (\<lambda>x. Chain (f x) g) # stk) env w"
    by (simp add: step_def)
  then have "run (Suc n') orc rt rqs (Chain m (\<lambda>x. Chain (f x) g)) stk env w = Some r"
    using n' by (simp add: run_Continue)
  with a show "\<exists>n n' r. run n orc rt rqs (Chain (Chain m f) g) stk env w = Some r
                    \<and> run n' orc rt rqs (Chain m (\<lambda>x. Chain (f x) g)) stk env w = Some r"
    by blast
qed

text \<open>
  C3. The monad laws of \<^verbatim>\<open>QIO.chain\<close> over \<^verbatim>\<open>QIO.of\<close>, as equalities of observable
  outcomes: \<^verbatim>\<open>QIO.of(a).chain(f)\<close> is equivalent to \<^verbatim>\<open>f(a)\<close>, \<^verbatim>\<open>m.chain(QIO.of)\<close> is
  equivalent to \<^verbatim>\<open>m\<close>, and \<^verbatim>\<open>m.chain(f).chain(g)\<close> is equivalent to
  \<^verbatim>\<open>m.chain(x => f(x).chain(g))\<close>: in every context both evaluations end, with the same
  exit (or both hang), the same final state and the same requests to the runtime.
\<close>

theorem chain_monad_laws:
  "equivalent (QIO_chain (QIO_of a) f) (f a)
   \<and> equivalent (QIO_chain m QIO_of) m
   \<and> equivalent (QIO_chain (QIO_chain m f) g) (QIO_chain m (\<lambda>x. QIO_chain (f x) g))"
proof (intro conjI)
  show "equivalent (QIO_chain (QIO_of a) f) (f a)"
    unfolding QIO_chain_def QIO_of_def by (rule left_identity)
next
  have "(QIO_of :: val \<Rightarrow> 'a instr) = Constant" by (rule ext) (simp add: QIO_of_def)
  then show "equivalent (QIO_chain m QIO_of) m"
    unfolding QIO_chain_def by (simp add: right_identity)
next
  show "equivalent (QIO_chain (QIO_chain m f) g) (QIO_chain m (\<lambda>x. QIO_chain (f x) g))"
    unfolding QIO_chain_def by (rule associativity)
qed

theorem chain_monad_laws_witness:
  "equivalent (QIO_chain (QIO_of (VNum 1)) (\<lambda>x. Reject x)) (Reject (VNum 1) :: unit instr)
   \<and> equivalent (QIO_chain (Async (HostRegister (VRef 0))) QIO_of) (Async (HostRegister (VRef 0)) :: unit instr)
   \<and> equivalent (QIO_chain (QIO_chain (Async (HostRegister (VRef 0))) (\<lambda>x. Reject x)) (\<lambda>x. Never))
        (QIO_chain (Async (HostRegister (VRef 0))) (\<lambda>x. QIO_chain (Reject x) (\<lambda>x. Never)) :: unit instr)"
  using chain_monad_laws [of "VNum 1" "\<lambda>x. Reject x :: unit instr" "Async (HostRegister (VRef 0))" "\<lambda>x. Never"]
  by simp

section \<open>Theorems about QIO.seq\<close>

lemmas qio_defs = QIO_seq_def seq_reduce_def QIO_map_def QIO_chain_def QIO_addEnv_def QIO_and_def QIO_env_def
  QIO_access_def QIO_lift_def QIO_resume_def QIO_of_def Id_def List_empty_def prepend_def asArray_def

lemma seq_reduce_snoc:
  "seq_reduce (ios @ [f]) = QIO_chain (seq_reduce ios) (\<lambda>list. QIO_map f (\<lambda>v. List_prepend v list))"
  by (simp add: seq_reduce_def)

lemma seq_reduce_constants:
  "run (4 * length vs + 4 + n) orc rt rqs (seq_reduce (map QIO_of vs)) stk env w
     = run n orc rt rqs (Constant (VList (rev vs))) stk env w"
proof (induction vs arbitrary: stk n rule: rev_induct)
  case Nil
  have "run (Suc (Suc (Suc (Suc n)))) orc rt rqs (seq_reduce []) stk env w
          = run n orc rt rqs (Constant (VList [])) stk env w"
    by (simp add: qio_defs run.simps(2) step_def)
  then show ?case by (simp add: eval_nat_numeral)
next
  case (snoc v vs)
  let ?K = "\<lambda>list. QIO_map (QIO_of v) (\<lambda>x. List_prepend x list)"
  have first: "run (Suc m) orc rt rqs (seq_reduce (map QIO_of (vs @ [v]))) stk env w
          = run m orc rt rqs (seq_reduce (map QIO_of vs)) (Apply ?K # stk) env w" for m
    by (simp add: seq_reduce_snoc QIO_chain_def run.simps(2) step_def)
  have last: "run (Suc (Suc (Suc m))) orc rt rqs (Constant (VList (rev vs))) (Apply ?K # stk) env w
          = run m orc rt rqs (Constant (VList (rev (vs @ [v])))) stk env w" for m
    by (simp add: QIO_map_def QIO_of_def prepend_def run.simps(2) step_def)
  have a: "4 * length (vs @ [v]) + 4 + n = Suc (4 * length vs + 4 + (Suc (Suc (Suc n))))"
    by simp
  show ?case
    unfolding a first snoc.IH last ..
qed

lemma seq_constants:
  "run (4 * length vs + 7) orc rt rqs (QIO_seq (map QIO_of vs)) [] env w
     = Some \<lparr> ending = Exited (Success (VArr (rev vs))), world = w, requests = rqs \<rparr>"
proof -
  have first: "run (Suc m) orc rt rqs (QIO_seq (map QIO_of vs)) [] env w
          = run m orc rt rqs (seq_reduce (map QIO_of vs)) [Apply (\<lambda>a. terminal (List_asArray a))] env w" for m
    by (simp add: QIO_seq_def QIO_map_def run.simps(2) step_def)
  have last: "run (Suc (Suc 0)) orc rt rqs (Constant (VList (rev vs)))
                [Apply (\<lambda>a. terminal (List_asArray a))] env w
          = Some \<lparr> ending = Exited (Success (VArr (rev vs))), world = w, requests = rqs \<rparr>"
    by (simp add: asArray_def run.simps(2) step_def)
  have a: "4 * length vs + 7 = Suc (4 * length vs + 4 + Suc (Suc 0))" by simp
  show ?thesis
    unfolding a first seq_reduce_constants last ..
qed

text \<open>
  \<^verbatim>\<open>seq\<close> returns \<^verbatim>\<open>asArray\<close> of the list built by prepending and \<^verbatim>\<open>par\<close> its reverse.
  Whatever order \<^verbatim>\<open>asArray\<close> lists the elements in (\<open>conv\<close>), the two agree with the
  order of the input only on a list that reads the same in both directions.
\<close>

lemma prepend_fold: "foldl (\<lambda>l v. prepend v l) acc vs = rev vs @ acc"
  by (induction vs arbitrary: acc) (simp_all add: prepend_def)

lemma seq_par_orders:
  assumes "conv (foldl (\<lambda>l v. prepend v l) [] vs) = vs"
    and "rev (conv (foldl (\<lambda>l v. prepend v l) [] vs)) = vs"
  shows "rev vs = vs"
  using assms by simp

text \<open>
  C9, at the failing input \<^verbatim>\<open>QIO.seq([QIO.of(1), QIO.of(2)])\<close>: both effects succeed,
  and \<^verbatim>\<open>seq\<close> resolves with \<^verbatim>\<open>[2, 1]\<close>, the values in the reverse of the input order.
  The values are prepended to the list one after the other and \<^verbatim>\<open>asArray\<close> is returned
  as it is, where \<^verbatim>\<open>QIO.par\<close> returns \<^verbatim>\<open>asArray.reverse()\<close>. For every list of constant
  effects \<^verbatim>\<open>seq\<close> resolves with the reversed list of their values (\<open>seq_constants\<close>).
\<close>

theorem seq_reverses:
  "run 15 orc rt [] (QIO_seq [QIO_of (VNum 1), QIO_of (VNum 2)]) [] env w
     = Some \<lparr> ending = Exited (Success (VArr [VNum 2, VNum 1])), world = w, requests = [] \<rparr>"
  using seq_constants [of "[VNum 1, VNum 2]" orc rt "[]" env w] by simp

section \<open>Theorems about QIO.race\<close>





end
